theory Spec2Isabelle
  imports Complex_Main "HOL-Library.FSet"
begin

section \<open>PageRank (src/pagerank/pagerank.py)\<close>

text \<open>
  The corpus is a Python dict from a page to the set of pages it links to. A dict keeps
  its keys in insertion order and the loops of the program run over it in that order, so
  it is an association list here; a Python set is a finite set. Python's unbounded
  integers are \<open>int\<close>, and every exception the program can raise is a value of type
  \<open>error\<close>. Python's floats are read as exact real numbers in \<open>transition_model\<close>, in
  \<open>sample_pagerank\<close> and in one pass of \<open>iterate_pagerank\<close>; the loop of
  \<open>iterate_pagerank\<close>, whose exit depends on how the floats round, takes its arithmetic as
  a parameter, with exact arithmetic and IEEE doubles as instances.
\<close>

datatype error = KeyError | ZeroDivisionError | IndexError | ValueError

type_synonym 'k corpus = "('k \<times> 'k fset) list"

type_synonym ('k, 'v) dict = "('k \<times> 'v) list"

text \<open>\<open>d[k]\<close>: the value stored under \<open>k\<close>, KeyError when there is none.\<close>

definition dict_get :: "('k, 'v) dict \<Rightarrow> 'k \<Rightarrow> error + 'v" where
  "dict_get m k = (case map_of m k of None \<Rightarrow> Inl KeyError | Some v \<Rightarrow> Inr v)"

subsection \<open>transition_model\<close>

definition transition_model :: "'k corpus \<Rightarrow> 'k \<Rightarrow> real \<Rightarrow> error + ('k, real) dict" where
  "transition_model corpus page damping_factor =
     (let num_pages = length corpus in
      case dict_get corpus page of
        Inl e \<Rightarrow> Inl e
      | Inr links \<Rightarrow>
          let num_links = fcard links in
          if fcard links = 0
          then Inr (map (\<lambda>(page_name, _). (page_name, 1 / real num_pages)) corpus)
          else
            let random_prob = (1 - damping_factor) / real num_pages;
                link_prob = damping_factor / real num_links
            in Inr (map (\<lambda>(page_name, _).
                      (page_name,
                       if page_name |\<in>| links then 0 + random_prob + link_prob
                       else 0 + random_prob)) corpus))"

subsection \<open>The random module\<close>

text \<open>
  Python's \<open>random\<close> module is not part of the repository. Its generator is a state
  \<open>'s\<close>, and the two functions the program calls are parameters: each takes the state
  and returns the element drawn together with the next state. \<open>random.choice\<close> raises
  IndexError on an empty sequence, \<open>random.choices\<close> raises ValueError when the weights
  do not sum to a positive number; both are written out.
\<close>

record ('s, 'k) random_source =
  draw_choice :: "'s \<Rightarrow> 'k list \<Rightarrow> 'k \<times> 's"
  draw_choices :: "'s \<Rightarrow> 'k list \<Rightarrow> real list \<Rightarrow> 'k \<times> 's"

definition random_choice :: "('s, 'k) random_source \<Rightarrow> 's \<Rightarrow> 'k list \<Rightarrow> error + 'k \<times> 's" where
  "random_choice R s seq = (if seq = [] then Inl IndexError else Inr (draw_choice R s seq))"

definition random_choices ::
  "('s, 'k) random_source \<Rightarrow> 's \<Rightarrow> 'k list \<Rightarrow> real list \<Rightarrow> error + 'k \<times> 's" where
  "random_choices R s population weights =
     (if sum_list weights \<le> 0 then Inl ValueError
      else Inr (draw_choices R s population weights))"

text \<open>What both functions promise: the element drawn is one of the population.\<close>

definition draws_from_population :: "('s, 'k) random_source \<Rightarrow> bool" where
  "draws_from_population R \<longleftrightarrow>
     (\<forall>s xs. xs \<noteq> [] \<longrightarrow> fst (draw_choice R s xs) \<in> set xs) \<and>
     (\<forall>s xs ws. xs \<noteq> [] \<longrightarrow> fst (draw_choices R s xs ws) \<in> set xs)"

text \<open>A generator for running the model: a counter that walks round the population.\<close>

definition round_robin :: "(nat, 'k) random_source" where
  "round_robin =
     \<lparr> draw_choice = (\<lambda>s xs. (xs ! (s mod length xs), Suc s)),
       draw_choices = (\<lambda>s xs ws. (xs ! (s mod length xs), Suc s)) \<rparr>"

subsection \<open>sample_pagerank\<close>

text \<open>
  \<open>page_rank[next_page] += 1\<close> when the page is a key already,
  \<open>page_rank[next_page] = 1\<close> (a new last key) otherwise.
\<close>

fun count_visit :: "('k, int) dict \<Rightarrow> 'k \<Rightarrow> ('k, int) dict" where
  "count_visit [] next_page = [(next_page, 1)]"
| "count_visit ((k, v) # page_rank) next_page =
     (if k = next_page then (k, v + 1) # page_rank
      else (k, v) # count_visit page_rank next_page)"

text \<open>The body of \<open>for i in range(n-1)\<close>, run the given number of times.\<close>

fun sample_loop ::
  "('s, 'k) random_source \<Rightarrow> 'k corpus \<Rightarrow> real \<Rightarrow> nat \<Rightarrow> 'k \<Rightarrow> 's \<Rightarrow> ('k, int) dict
     \<Rightarrow> error + ('k, int) dict" where
  "sample_loop R corpus damping_factor 0 next_page s page_rank = Inr page_rank"
| "sample_loop R corpus damping_factor (Suc i) next_page s page_rank =
     (case transition_model corpus next_page damping_factor of
        Inl e \<Rightarrow> Inl e
      | Inr model \<Rightarrow>
          (case random_choices R s (map fst model) (map snd model) of
             Inl e \<Rightarrow> Inl e
           | Inr (next_page', s') \<Rightarrow>
               sample_loop R corpus damping_factor i next_page' s'
                 (count_visit page_rank next_page')))"

text \<open>
  \<open>for page in page_rank: page_rank[page] = page_rank[page] / n\<close>: the division is
  reached only when the dict has a key.
\<close>

definition normalize_visits :: "('k, int) dict \<Rightarrow> int \<Rightarrow> error + ('k, real) dict" where
  "normalize_visits page_rank n =
     (if page_rank = [] then Inr []
      else if n = 0 then Inl ZeroDivisionError
      else Inr (map (\<lambda>(page, v). (page, real_of_int v / real_of_int n)) page_rank))"

definition sample_pagerank ::
  "('s, 'k) random_source \<Rightarrow> 's \<Rightarrow> 'k corpus \<Rightarrow> real \<Rightarrow> int \<Rightarrow> error + ('k, real) dict" where
  "sample_pagerank R s corpus damping_factor n =
     (case random_choice R s (map fst corpus) of
        Inl e \<Rightarrow> Inl e
      | Inr (next_page, s') \<Rightarrow>
          (case sample_loop R corpus damping_factor (nat (n - 1)) next_page s' [] of
             Inl e \<Rightarrow> Inl e
           | Inr page_rank \<Rightarrow> normalize_visits page_rank n))"

subsection \<open>iterate_pagerank: one pass of its loop, over the reals\<close>

text \<open>
  The body of the while loop with the floats read as exact reals. The loop itself, whose
  exit depends on how the interpreter rounds, follows further down with the arithmetic as
  a parameter.
\<close>

text \<open>
  The inner loop \<open>for other_page in corpus\<close> of one page: \<open>choice_prob\<close> is the
  accumulator. A key that the loop visits is looked up in \<open>corpus\<close> with its own entry.
\<close>

fun choice_prob_loop ::
  "real \<Rightarrow> ('k, real) dict \<Rightarrow> 'k \<Rightarrow> 'k corpus \<Rightarrow> real \<Rightarrow> error + real" where
  "choice_prob_loop init_prob page_rank page_name [] choice_prob = Inr choice_prob"
| "choice_prob_loop init_prob page_rank page_name ((other_page, links) # rest) choice_prob =
     (if fcard links = 0
      then (case dict_get page_rank other_page of
              Inl e \<Rightarrow> Inl e
            | Inr r \<Rightarrow> choice_prob_loop init_prob page_rank page_name rest
                        (choice_prob + r * init_prob))
      else if page_name |\<in>| links
      then (case dict_get page_rank other_page of
              Inl e \<Rightarrow> Inl e
            | Inr r \<Rightarrow> choice_prob_loop init_prob page_rank page_name rest
                        (choice_prob + r / real (fcard links)))
      else choice_prob_loop init_prob page_rank page_name rest choice_prob)"

text \<open>
  The outer loop \<open>for page_name in corpus\<close>: it stores a rank under every key of
  \<open>new_rank\<close>, whose keys are those of the corpus in the same order.
\<close>

fun new_rank_loop ::
  "'k corpus \<Rightarrow> real \<Rightarrow> real \<Rightarrow> real \<Rightarrow> ('k, real) dict \<Rightarrow> 'k corpus
     \<Rightarrow> error + ('k, real) dict" where
  "new_rank_loop corpus damping_factor random_prob init_prob page_rank [] = Inr []"
| "new_rank_loop corpus damping_factor random_prob init_prob page_rank ((page_name, _) # rest) =
     (case choice_prob_loop init_prob page_rank page_name corpus 0 of
        Inl e \<Rightarrow> Inl e
      | Inr choice_prob \<Rightarrow>
          (case new_rank_loop corpus damping_factor random_prob init_prob page_rank rest of
             Inl e \<Rightarrow> Inl e
           | Inr new_rank \<Rightarrow>
               Inr ((page_name, random_prob + damping_factor * choice_prob) # new_rank)))"

text \<open>\<open>norm_factor = sum(new_rank.values())\<close> and the division of every rank by it.\<close>

definition normalize_ranks :: "('k, real) dict \<Rightarrow> error + ('k, real) dict" where
  "normalize_ranks new_rank =
     (let norm_factor = sum_list (map snd new_rank) in
      if new_rank = [] then Inr []
      else if norm_factor = 0 then Inl ZeroDivisionError
      else Inr (map (\<lambda>(page, rank). (page, rank / norm_factor)) new_rank))"

text \<open>The loop that finds the largest change, \<open>max_change\<close> being the accumulator.\<close>

fun max_change_loop ::
  "('k, real) dict \<Rightarrow> ('k, real) dict \<Rightarrow> 'k corpus \<Rightarrow> real \<Rightarrow> error + real" where
  "max_change_loop page_rank new_rank [] max_change = Inr max_change"
| "max_change_loop page_rank new_rank ((page_name, _) # rest) max_change =
     (case dict_get page_rank page_name of
        Inl e \<Rightarrow> Inl e
      | Inr old \<Rightarrow>
          (case dict_get new_rank page_name of
             Inl e \<Rightarrow> Inl e
           | Inr new \<Rightarrow>
               (let change = \<bar>old - new\<bar> in
                max_change_loop page_rank new_rank rest
                  (if change > max_change then change else max_change))))"

text \<open>One pass of the while loop's body: the new \<open>page_rank\<close> and \<open>max_change\<close>.\<close>

definition sweep ::
  "'k corpus \<Rightarrow> real \<Rightarrow> real \<Rightarrow> real \<Rightarrow> ('k, real) dict \<Rightarrow> error + ('k, real) dict \<times> real" where
  "sweep corpus damping_factor random_prob init_prob page_rank =
     (case new_rank_loop corpus damping_factor random_prob init_prob page_rank corpus of
        Inl e \<Rightarrow> Inl e
      | Inr raw \<Rightarrow>
          (case normalize_ranks raw of
             Inl e \<Rightarrow> Inl e
           | Inr new_rank \<Rightarrow>
               (case max_change_loop page_rank new_rank corpus 0 of
                  Inl e \<Rightarrow> Inl e
                | Inr max_change \<Rightarrow> Inr (new_rank, max_change))))"

subsection \<open>Well-formed corpora and the examples of the specification\<close>

text \<open>
  The invariants of a graph: its keys are distinct (it is a dict) and every link of a
  page is itself a key of the corpus.
\<close>

definition wf_corpus :: "'k corpus \<Rightarrow> bool" where
  "wf_corpus corpus \<longleftrightarrow>
     distinct (map fst corpus) \<and>
     (\<forall>(page, links) \<in> set corpus. \<forall>l \<in> fset links. l \<in> set (map fst corpus))"

definition two_cycle :: "string corpus" where
  "two_cycle = [(''A'', {|''B''|}), (''B'', {|''A''|})]"

definition dangling_example :: "string corpus" where
  "dangling_example = [(''A'', {|''B''|}), (''B'', {||}), (''C'', {|''A''|})]"

subsection \<open>The update rule, the iterates and the quantities of the convergence argument\<close>

text \<open>The rank stored for a page, read as a function of the page.\<close>

definition rank_of :: "('k, real) dict \<Rightarrow> 'k \<Rightarrow> real" where
  "rank_of page_rank q = (case map_of page_rank q of Some r \<Rightarrow> r | None \<Rightarrow> 0)"

text \<open>
  The share of the rank of entry \<open>e\<close> that one pass gives to page \<open>p\<close>: \<open>1/N\<close> when the
  entry has no links, \<open>1/L\<close> when \<open>p\<close> is one of its \<open>L\<close> links, nothing otherwise.
\<close>

definition link_weight :: "nat \<Rightarrow> 'k \<Rightarrow> 'k \<times> 'k fset \<Rightarrow> real" where
  "link_weight N p e =
     (if fcard (snd e) = 0 then 1 / real N
      else if p |\<in>| snd e then 1 / real (fcard (snd e)) else 0)"


text \<open>
  The state of \<open>iterate_pagerank\<close> (\<open>page_rank\<close> and \<open>max_change\<close>) after the body of its
  while loop has run \<open>k\<close> times: the sequence of iterates. On the empty corpus the
  function fails before the loop, dividing by \<open>num_pages\<close>.
\<close>

fun after_sweeps :: "'k corpus \<Rightarrow> real \<Rightarrow> nat \<Rightarrow> error + ('k, real) dict \<times> real" where
  "after_sweeps corpus damping_factor 0 =
     (if length corpus = 0 then Inl ZeroDivisionError
      else Inr (map (\<lambda>(page_name, _). (page_name, 1 / real (length corpus))) corpus,
                1 / real (length corpus)))"
| "after_sweeps corpus damping_factor (Suc k) =
     (case after_sweeps corpus damping_factor k of
        Inl e \<Rightarrow> Inl e
      | Inr (page_rank, max_change) \<Rightarrow>
          sweep corpus damping_factor ((1 - damping_factor) / real (length corpus))
            (1 / real (length corpus)) page_rank)"






subsection \<open>iterate_pagerank, the arithmetic of the interpreter as a parameter\<close>

text \<open>
  The operations that the program applies to floats, for a type \<open>'f\<close> of floats.
  \<open>fconst\<close> is the float of an exact number: the value of a literal, of an int that meets
  a float in an operation, and of the true division of two ints, which Python rounds
  once. Python raises ZeroDivisionError where a float is divided by zero; that test is
  written out where the program divides.
\<close>

record 'f arith =
  fadd :: "'f \<Rightarrow> 'f \<Rightarrow> 'f"
  fsub :: "'f \<Rightarrow> 'f \<Rightarrow> 'f"
  fmul :: "'f \<Rightarrow> 'f \<Rightarrow> 'f"
  fdiv :: "'f \<Rightarrow> 'f \<Rightarrow> 'f"
  fabs :: "'f \<Rightarrow> 'f"
  fgt :: "'f \<Rightarrow> 'f \<Rightarrow> bool"
  fis_zero :: "'f \<Rightarrow> bool"
  fconst :: "rat \<Rightarrow> 'f"

text \<open>
  \<open>sum(new_rank.values())\<close>: the additions run from the left and start at the int 0, as
  CPython does them before version 3.12 (later versions compensate the rounding error).
\<close>

definition fsum :: "'f arith \<Rightarrow> 'f list \<Rightarrow> 'f" where
  "fsum ar xs = foldl (fadd ar) (fconst ar 0) xs"

text \<open>
  The functions of the pass once more, every operation on floats taken from the record.
\<close>

fun choice_prob_loop_fp ::
  "'f arith \<Rightarrow> 'f \<Rightarrow> ('k, 'f) dict \<Rightarrow> 'k \<Rightarrow> 'k corpus \<Rightarrow> 'f \<Rightarrow> error + 'f" where
  "choice_prob_loop_fp ar init_prob page_rank page_name [] choice_prob = Inr choice_prob"
| "choice_prob_loop_fp ar init_prob page_rank page_name ((other_page, links) # rest) choice_prob =
     (if fcard links = 0
      then (case dict_get page_rank other_page of
              Inl e \<Rightarrow> Inl e
            | Inr r \<Rightarrow> choice_prob_loop_fp ar init_prob page_rank page_name rest
                        (fadd ar choice_prob (fmul ar r init_prob)))
      else if page_name |\<in>| links
      then (case dict_get page_rank other_page of
              Inl e \<Rightarrow> Inl e
            | Inr r \<Rightarrow> choice_prob_loop_fp ar init_prob page_rank page_name rest
                        (fadd ar choice_prob (fdiv ar r (fconst ar (of_nat (fcard links))))))
      else choice_prob_loop_fp ar init_prob page_rank page_name rest choice_prob)"

fun new_rank_loop_fp ::
  "'f arith \<Rightarrow> 'k corpus \<Rightarrow> 'f \<Rightarrow> 'f \<Rightarrow> 'f \<Rightarrow> ('k, 'f) dict \<Rightarrow> 'k corpus
     \<Rightarrow> error + ('k, 'f) dict" where
  "new_rank_loop_fp ar corpus damping_factor random_prob init_prob page_rank [] = Inr []"
| "new_rank_loop_fp ar corpus damping_factor random_prob init_prob page_rank
       ((page_name, _) # rest) =
     (case choice_prob_loop_fp ar init_prob page_rank page_name corpus (fconst ar 0) of
        Inl e \<Rightarrow> Inl e
      | Inr choice_prob \<Rightarrow>
          (case new_rank_loop_fp ar corpus damping_factor random_prob init_prob page_rank rest of
             Inl e \<Rightarrow> Inl e
           | Inr new_rank \<Rightarrow>
               Inr ((page_name,
                     fadd ar random_prob (fmul ar damping_factor choice_prob)) # new_rank)))"

definition normalize_ranks_fp :: "'f arith \<Rightarrow> ('k, 'f) dict \<Rightarrow> error + ('k, 'f) dict" where
  "normalize_ranks_fp ar new_rank =
     (let norm_factor = fsum ar (map snd new_rank) in
      if new_rank = [] then Inr []
      else if fis_zero ar norm_factor then Inl ZeroDivisionError
      else Inr (map (\<lambda>(page, rank). (page, fdiv ar rank norm_factor)) new_rank))"

fun max_change_loop_fp ::
  "'f arith \<Rightarrow> ('k, 'f) dict \<Rightarrow> ('k, 'f) dict \<Rightarrow> 'k corpus \<Rightarrow> 'f \<Rightarrow> error + 'f" where
  "max_change_loop_fp ar page_rank new_rank [] max_change = Inr max_change"
| "max_change_loop_fp ar page_rank new_rank ((page_name, _) # rest) max_change =
     (case dict_get page_rank page_name of
        Inl e \<Rightarrow> Inl e
      | Inr old \<Rightarrow>
          (case dict_get new_rank page_name of
             Inl e \<Rightarrow> Inl e
           | Inr new \<Rightarrow>
               (let change = fabs ar (fsub ar old new) in
                max_change_loop_fp ar page_rank new_rank rest
                  (if fgt ar change max_change then change else max_change))))"

definition sweep_fp ::
  "'f arith \<Rightarrow> 'k corpus \<Rightarrow> 'f \<Rightarrow> 'f \<Rightarrow> 'f \<Rightarrow> ('k, 'f) dict
     \<Rightarrow> error + ('k, 'f) dict \<times> 'f" where
  "sweep_fp ar corpus damping_factor random_prob init_prob page_rank =
     (case new_rank_loop_fp ar corpus damping_factor random_prob init_prob page_rank corpus of
        Inl e \<Rightarrow> Inl e
      | Inr raw \<Rightarrow>
          (case normalize_ranks_fp ar raw of
             Inl e \<Rightarrow> Inl e
           | Inr new_rank \<Rightarrow>
               (case max_change_loop_fp ar page_rank new_rank corpus (fconst ar 0) of
                  Inl e \<Rightarrow> Inl e
                | Inr max_change \<Rightarrow> Inr (new_rank, max_change))))"

text \<open>
  \<open>while max_change > 0.001\<close>. The loop has no bound on its iterations, so the model is
  a partial function: \<open>None\<close> is a run that never leaves the loop.
\<close>

partial_function (option) iterate_loop ::
  "'f arith \<Rightarrow> 'k corpus \<Rightarrow> 'f \<Rightarrow> 'f \<Rightarrow> 'f \<Rightarrow> ('k, 'f) dict \<Rightarrow> 'f
     \<Rightarrow> (error + ('k, 'f) dict) option" where
  "iterate_loop ar corpus damping_factor random_prob init_prob page_rank max_change =
     (if fgt ar max_change (fconst ar (1 / 1000))
      then (case sweep_fp ar corpus damping_factor random_prob init_prob page_rank of
              Inl e \<Rightarrow> Some (Inl e)
            | Inr (new_rank, max_change') \<Rightarrow>
                iterate_loop ar corpus damping_factor random_prob init_prob new_rank max_change')
      else Some (Inr page_rank))"

declare iterate_loop.simps [code]

definition iterate_pagerank ::
  "'f arith \<Rightarrow> 'k corpus \<Rightarrow> 'f \<Rightarrow> (error + ('k, 'f) dict) option" where
  "iterate_pagerank ar corpus damping_factor =
     (let num_pages = length corpus in
      if num_pages = 0 then Some (Inl ZeroDivisionError)
      else
        let random_prob = fdiv ar (fsub ar (fconst ar 1) damping_factor)
                            (fconst ar (of_nat num_pages));
            init_prob = fconst ar (1 / of_nat num_pages);
            page_rank = map (\<lambda>(page_name, _). (page_name, init_prob)) corpus
        in iterate_loop ar corpus damping_factor random_prob init_prob page_rank init_prob)"

text \<open>
  Exact arithmetic: the floats are the real numbers and no operation rounds.
\<close>

definition exact :: "real arith" where
  "exact = \<lparr> fadd = (+), fsub = (-), fmul = (*), fdiv = (/), fabs = abs,
             fgt = (\<lambda>a b. b < a), fis_zero = (\<lambda>a. a = 0), fconst = of_rat \<rparr>"

text \<open>
  IEEE 754 binary64, the float of CPython. A finite double is the rational number it
  denotes; the two zeros are not told apart, since the program never looks at the sign
  of a zero. \<open>round_binary64\<close> takes an exact number to the nearest double, ties to the
  even significand, with gradual underflow and with overflow to an infinity; every
  operation is the exact one followed by this rounding.
\<close>

datatype double = Finite rat | PlusInf | MinusInf | NaN

text \<open>
  The number of bits of a positive integer, the powers of two as rationals, and the
  exponent \<open>e\<close> with \<open>2^e \<le> a < 2^(e+1)\<close> of a positive rational \<open>a\<close>.
\<close>

function bit_length :: "int \<Rightarrow> int" where
  "bit_length n = (if n \<le> 0 then 0 else 1 + bit_length (n div 2))"
  by pat_completeness auto
termination
  by (relation "measure nat") auto

definition pow2 :: "int \<Rightarrow> rat" where
  "pow2 e = (if 0 \<le> e then 2 ^ nat e else 1 / 2 ^ nat (- e))"

definition floor_log2 :: "rat \<Rightarrow> int" where
  "floor_log2 a =
     (let (p, q) = quotient_of a;
          e = bit_length p - bit_length q
      in if pow2 e \<le> a then e else e - 1)"

text \<open>
  The nearest integer, a tie going to the even one.
\<close>

definition half_even :: "rat \<Rightarrow> int" where
  "half_even y =
     (let f = \<lfloor>y\<rfloor>; r = y - of_int f
      in if r < 1 / 2 then f else if 1 / 2 < r then f + 1 else if even f then f else f + 1)"

text \<open>
  The significand has 53 bits. Below \<open>2^-1022\<close> the spacing of the doubles stays
  \<open>2^-1074\<close> (subnormal numbers), and a rounded value of \<open>2^1024\<close> or more is an infinity.
\<close>

definition round_binary64 :: "rat \<Rightarrow> double" where
  "round_binary64 x =
     (if x = 0 then Finite 0
      else
        let a = \<bar>x\<bar>;
            e = max (floor_log2 a) (- 1022);
            ulp = pow2 (e - 52);
            m = half_even (a / ulp)
        in if 1024 \<le> e \<or> (e = 1023 \<and> m = 9007199254740992)
           then (if 0 < x then PlusInf else MinusInf)
           else Finite (if 0 < x then of_int m * ulp else - (of_int m * ulp)))"

text \<open>
  The operations: on finite doubles the exact result, rounded; with an infinity or a NaN
  among the operands as IEEE 754 has them. \<open>ddiv\<close> is applied to a divisor that is not
  zero only.
\<close>

fun dneg :: "double \<Rightarrow> double" where
  "dneg (Finite a) = Finite (- a)"
| "dneg PlusInf = MinusInf"
| "dneg MinusInf = PlusInf"
| "dneg NaN = NaN"

fun dadd :: "double \<Rightarrow> double \<Rightarrow> double" where
  "dadd (Finite a) (Finite b) = round_binary64 (a + b)"
| "dadd NaN y = NaN"
| "dadd x NaN = NaN"
| "dadd PlusInf MinusInf = NaN"
| "dadd MinusInf PlusInf = NaN"
| "dadd PlusInf y = PlusInf"
| "dadd MinusInf y = MinusInf"
| "dadd (Finite a) y = y"

definition dsub :: "double \<Rightarrow> double \<Rightarrow> double" where
  "dsub x y = dadd x (dneg y)"

fun dsign :: "double \<Rightarrow> int" where
  "dsign (Finite a) = (if 0 < a then 1 else if a < 0 then - 1 else 0)"
| "dsign PlusInf = 1"
| "dsign MinusInf = - 1"
| "dsign NaN = 0"

definition signed_inf :: "int \<Rightarrow> double" where
  "signed_inf s = (if 0 < s then PlusInf else if s < 0 then MinusInf else NaN)"

fun dmul :: "double \<Rightarrow> double \<Rightarrow> double" where
  "dmul (Finite a) (Finite b) = round_binary64 (a * b)"
| "dmul NaN y = NaN"
| "dmul x NaN = NaN"
| "dmul x y = signed_inf (dsign x * dsign y)"

fun ddiv :: "double \<Rightarrow> double \<Rightarrow> double" where
  "ddiv (Finite a) (Finite b) = round_binary64 (a / b)"
| "ddiv NaN y = NaN"
| "ddiv x NaN = NaN"
| "ddiv (Finite a) y = Finite 0"
| "ddiv x (Finite b) = signed_inf (dsign x * dsign (Finite b))"
| "ddiv x y = NaN"

fun dabs :: "double \<Rightarrow> double" where
  "dabs (Finite a) = Finite \<bar>a\<bar>"
| "dabs PlusInf = PlusInf"
| "dabs MinusInf = PlusInf"
| "dabs NaN = NaN"

fun dgt :: "double \<Rightarrow> double \<Rightarrow> bool" where
  "dgt (Finite a) (Finite b) \<longleftrightarrow> b < a"
| "dgt NaN y \<longleftrightarrow> False"
| "dgt x NaN \<longleftrightarrow> False"
| "dgt PlusInf y \<longleftrightarrow> y \<noteq> PlusInf"
| "dgt x MinusInf \<longleftrightarrow> x \<noteq> MinusInf"
| "dgt x y \<longleftrightarrow> False"

fun dis_zero :: "double \<Rightarrow> bool" where
  "dis_zero (Finite a) \<longleftrightarrow> a = 0"
| "dis_zero x \<longleftrightarrow> False"

definition binary64 :: "double arith" where
  "binary64 = \<lparr> fadd = dadd, fsub = dsub, fmul = dmul, fdiv = ddiv, fabs = dabs,
                fgt = dgt, fis_zero = dis_zero, fconst = round_binary64 \<rparr>"


definition sink_pair :: "string corpus" where
  "sink_pair = [(''A'', {|''B''|}), (''B'', {||})]"

definition stray_link :: "string corpus" where
  "stray_link = [(''A'', {|''B'', ''C''|}), (''B'', {|''A''|})]"

section \<open>Dictionaries built over the keys of the corpus\<close>

lemma dict_get_map_entries:
  "k \<in> fst ` set c \<Longrightarrow> (\<And>x. x \<in> set c \<Longrightarrow> fst x = k \<Longrightarrow> g x = v) \<Longrightarrow>
     dict_get (map (\<lambda>x. (fst x, g x)) c) k = Inr v"
  by (induction c) (auto simp: dict_get_def)

lemma map_fst_map_entries: "map fst (map (\<lambda>x. (fst x, g x)) c) = map fst c"
  by (induction c) auto

lemma map_snd_map_entries: "map snd (map (\<lambda>x. (fst x, g x)) c) = map g c"
  by (induction c) auto

lemma sum_list_if_const:
  "sum_list (map (\<lambda>x. if P x then a + b else (a::real)) xs) =
     real (length xs) * a + real (length (filter P xs)) * b"
  by (induction xs) (auto simp: algebra_simps)

lemma links_in_corpus_count:
  assumes "distinct ks" "fset links \<subseteq> set ks"
  shows "length (filter (\<lambda>p. p |\<in>| links) ks) = fcard links"
proof -
  have "length (filter (\<lambda>p. p |\<in>| links) ks) = card ({p. p |\<in>| links} \<inter> set ks)"
    using assms(1) by (rule distinct_length_filter)
  also have "{p. p |\<in>| links} \<inter> set ks = fset links"
    using assms(2) by auto
  finally show ?thesis by (simp add: fcard.rep_eq)
qed

lemma wf_corpus_links:
  "wf_corpus c \<Longrightarrow> map_of c page = Some links \<Longrightarrow> fset links \<subseteq> set (map fst c)"
  unfolding wf_corpus_def by (auto dest!: map_of_SomeD)

section \<open>The transition model\<close>

text \<open>
  Claim C3. For a page of the corpus that has no outgoing link, \<open>transition_model\<close>
  returns the uniform distribution: it has the keys of the corpus, and every page of the
  corpus is given exactly \<open>1/N\<close>, \<open>N\<close> the number of pages.
\<close>

theorem transition_model_dangling:
  assumes "map_of corpus page = Some links" and "fcard links = 0"
  shows "\<exists>dist. transition_model corpus page d = Inr dist \<and>
           map fst dist = map fst corpus \<and>
           (\<forall>p \<in> set (map fst corpus). dict_get dist p = Inr (1 / real (length corpus)))"
proof -
  have "transition_model corpus page d =
          Inr (map (\<lambda>x. (fst x, 1 / real (length corpus))) corpus)"
    using assms by (simp add: transition_model_def dict_get_def[of corpus] case_prod_beta)
  then show ?thesis
    by (simp add: map_fst_map_entries dict_get_map_entries)
qed

text \<open>
  Claim C4. For a page with \<open>L > 0\<close> outgoing links in a well-formed corpus of \<open>N\<close>
  pages, \<open>transition_model\<close> gives \<open>(1-d)/N + d/L\<close> to every page linked from it and
  \<open>(1-d)/N\<close> to every other page, and the probabilities sum to exactly 1 (over the reals).
\<close>

theorem transition_model_linked:
  assumes "wf_corpus corpus" and "map_of corpus page = Some links" and "0 < fcard links"
  shows "\<exists>dist. transition_model corpus page d = Inr dist \<and>
           map fst dist = map fst corpus \<and>
           (\<forall>p \<in> set (map fst corpus).
              dict_get dist p =
                Inr (if p |\<in>| links
                     then (1 - d) / real (length corpus) + d / real (fcard links)
                     else (1 - d) / real (length corpus))) \<and>
           sum_list (map snd dist) = 1"
proof -
  let ?N = "real (length corpus)" and ?L = "real (fcard links)"
  let ?w = "\<lambda>p. if p |\<in>| links then (1 - d) / ?N + d / ?L else (1 - d) / ?N"
  let ?dist = "map (\<lambda>x. (fst x, ?w (fst x))) corpus"
  have nd: "links \<noteq> {||}" using assms(3) by (auto simp: fcard_fempty)
  have tm: "transition_model corpus page d = Inr ?dist"
    using assms(2) nd
    by (simp add: transition_model_def dict_get_def[of corpus] Let_def case_prod_beta)
  have ne: "corpus \<noteq> []" using assms(2) by auto
  have cnt: "length (filter (\<lambda>p. p |\<in>| links) (map fst corpus)) = fcard links"
    using assms(1) wf_corpus_links[OF assms(1,2)]
    by (intro links_in_corpus_count) (auto simp: wf_corpus_def)
  have "sum_list (map snd ?dist) = sum_list (map ?w (map fst corpus))"
    by (simp add: comp_def)
  also have "\<dots> = ?N * ((1 - d) / ?N) + ?L * (d / ?L)"
    by (simp only: sum_list_if_const cnt length_map)
  also have "\<dots> = 1" using ne nd by simp
  finally have s: "sum_list (map snd ?dist) = 1" .
  have look: "\<forall>p \<in> set (map fst corpus). dict_get ?dist p = Inr (?w p)"
    by (auto intro!: dict_get_map_entries)
  show ?thesis
    unfolding tm using s look by (simp add: map_fst_map_entries)
qed

theorem transition_model_dangling_witness:
  "map_of dangling_example ''B'' = Some {||} \<and> fcard ({||} :: string fset) = 0 \<and>
   (\<exists>dist. transition_model dangling_example ''B'' (85 / 100) = Inr dist \<and>
           map fst dist = map fst dangling_example \<and>
           (\<forall>p \<in> set (map fst dangling_example).
              dict_get dist p = Inr (1 / real (length dangling_example))))"
proof -
  have a: "map_of dangling_example ''B'' = Some {||}" by (simp add: dangling_example_def)
  have b: "fcard ({||} :: string fset) = 0" by simp
  show ?thesis using a b transition_model_dangling[OF a b, of "85 / 100"] by simp
qed

theorem transition_model_linked_witness:
  "wf_corpus two_cycle \<and> map_of two_cycle ''A'' = Some {|''B''|} \<and> 0 < fcard {|''B''|} \<and>
   (\<exists>dist. transition_model two_cycle ''A'' (85 / 100) = Inr dist \<and>
           map fst dist = map fst two_cycle \<and>
           (\<forall>p \<in> set (map fst two_cycle).
              dict_get dist p =
                Inr (if p |\<in>| {|''B''|}
                     then (1 - 85 / 100) / real (length two_cycle) + (85 / 100) / real (fcard {|''B''|})
                     else (1 - 85 / 100) / real (length two_cycle))) \<and>
           sum_list (map snd dist) = 1)"
proof -
  have a: "wf_corpus two_cycle" by (simp add: wf_corpus_def two_cycle_def)
  have b: "map_of two_cycle ''A'' = Some {|''B''|}" by (simp add: two_cycle_def)
  have c: "0 < fcard {|''B''|}" by (simp add: fcard_finsert_if)
  show ?thesis using a b c transition_model_linked[OF a b c, of "85 / 100"] by simp
qed

section \<open>The sampling engine\<close>

lemma count_visit_sum:
  "sum_list (map snd (count_visit pr k)) = sum_list (map snd pr) + 1"
  by (induction pr k rule: count_visit.induct) auto

lemma count_visit_keys:
  "map fst (count_visit pr k) = (if k \<in> set (map fst pr) then map fst pr else map fst pr @ [k])"
  by (induction pr k rule: count_visit.induct) auto

lemma count_visit_distinct:
  "distinct (map fst pr) \<Longrightarrow> distinct (map fst (count_visit pr k))"
  by (simp add: count_visit_keys)

lemma count_visit_positive:
  "\<forall>v \<in> set (map snd pr). 1 \<le> v \<Longrightarrow> \<forall>v \<in> set (map snd (count_visit pr k)). 1 \<le> v"
  by (induction pr k rule: count_visit.induct) auto

lemma sample_loop_step:
  assumes "sample_loop R c d (Suc i) p s pr = Inr pr'"
  shows "\<exists>p' s'. sample_loop R c d i p' s' (count_visit pr p') = Inr pr'"
proof (cases "transition_model c p d")
  case (Inl e)
  then show ?thesis using assms by simp
next
  case (Inr model)
  show ?thesis
  proof (cases "random_choices R s (map fst model) (map snd model)")
    case (Inl e)
    then show ?thesis using assms Inr by simp
  next
    case (Inr drawn)
    then show ?thesis using assms \<open>transition_model c p d = Inr model\<close>
      by (cases drawn) auto
  qed
qed

lemma sample_loop_counts:
  "sample_loop R c d i p s pr = Inr pr' \<Longrightarrow>
     sum_list (map snd pr') = sum_list (map snd pr) + int i \<and>
     (distinct (map fst pr) \<longrightarrow> distinct (map fst pr')) \<and>
     ((\<forall>v \<in> set (map snd pr). 1 \<le> v) \<longrightarrow> (\<forall>v \<in> set (map snd pr'). 1 \<le> v))"
proof (induction i arbitrary: p s pr)
  case 0
  then show ?case by simp
next
  case (Suc i)
  from sample_loop_step[OF Suc.prems] obtain p' s' where
    step: "sample_loop R c d i p' s' (count_visit pr p') = Inr pr'" by blast
  note ih = Suc.IH[OF step]
  have "sum_list (map snd pr') = sum_list (map snd pr) + int (Suc i)"
    using ih by (simp add: count_visit_sum)
  moreover have "distinct (map fst pr) \<longrightarrow> distinct (map fst pr')"
    using ih count_visit_distinct[of pr p'] by blast
  moreover have "(\<forall>v \<in> set (map snd pr). 1 \<le> v) \<longrightarrow> (\<forall>v \<in> set (map snd pr'). 1 \<le> v)"
    using ih count_visit_positive[of pr p'] by blast
  ultimately show ?case by blast
qed

lemma sum_list_pos_real:
  "xs \<noteq> [] \<Longrightarrow> \<forall>x \<in> set xs. (0::real) < x \<Longrightarrow> 0 < sum_list xs"
  by (induction xs) (auto intro: add_pos_nonneg sum_list_nonneg less_imp_le)

lemma transition_model_positive:
  assumes "p \<in> set (map fst c)" and "0 < d" and "d < 1"
  shows "\<exists>model. transition_model c p d = Inr model \<and> map fst model = map fst c \<and>
           (\<forall>w \<in> set (map snd model). 0 < w)"
proof -
  have ne: "c \<noteq> []" using assms(1) by auto
  obtain links where l: "map_of c p = Some links"
    using assms(1) by (cases "map_of c p") (auto simp: map_of_eq_None_iff)
  show ?thesis
  proof (cases "links = {||}")
    case True
    then show ?thesis using l ne
      by (simp add: transition_model_def dict_get_def[of c] case_prod_beta map_fst_map_entries
                    map_snd_map_entries)
  next
    case False
    then have "0 < fcard links" by (metis fcard_0_eq gr0I)
    then show ?thesis using l ne False assms(2,3)
      by (auto simp: transition_model_def dict_get_def[of c] case_prod_beta map_fst_map_entries
                    map_snd_map_entries Let_def intro!: add_pos_pos divide_pos_pos)
  qed
qed

lemma draw_choice_member:
  "draws_from_population R \<Longrightarrow> xs \<noteq> [] \<Longrightarrow> fst (draw_choice R s xs) \<in> set xs"
  by (simp add: draws_from_population_def)

lemma draw_choices_member:
  "draws_from_population R \<Longrightarrow> xs \<noteq> [] \<Longrightarrow> fst (draw_choices R s xs ws) \<in> set xs"
  by (simp add: draws_from_population_def)

lemma sample_loop_returns:
  assumes "draws_from_population R" and "0 < d" and "d < 1"
  shows "p \<in> set (map fst c) \<Longrightarrow> \<exists>pr'. sample_loop R c d i p s pr = Inr pr'"
proof (induction i arbitrary: p s pr)
  case 0
  then show ?case by simp
next
  case (Suc i)
  from transition_model_positive[OF Suc.prems assms(2,3)] obtain model where
    m: "transition_model c p d = Inr model" "map fst model = map fst c"
       "\<forall>w \<in> set (map snd model). 0 < w" by blast
  have ne: "c \<noteq> []" using Suc.prems by auto
  then have "map snd model \<noteq> []" using m(2) by (metis map_is_Nil_conv)
  then have pos: "0 < sum_list (map snd model)" using m(3) by (rule sum_list_pos_real)
  obtain p' s' where dr: "draw_choices R s (map fst c) (map snd model) = (p', s')"
    by (cases "draw_choices R s (map fst c) (map snd model)")
  have "fst (draw_choices R s (map fst c) (map snd model)) \<in> set (map fst c)"
    using assms(1) ne by (intro draw_choices_member) simp_all
  then have mem: "p' \<in> set (map fst c)" using dr by simp
  from Suc.IH[OF mem] obtain pr' where
    "sample_loop R c d i p' s' (count_visit pr p') = Inr pr'" by blast
  then show ?case using m(1,2) pos dr by (simp add: random_choices_def)
qed

lemma round_robin_draws: "draws_from_population round_robin"
  by (simp add: draws_from_population_def round_robin_def)

text \<open>
  Claim C10. With \<open>n = 1\<close> the loop of \<open>sample_pagerank\<close> does not run and the result is
  the empty dict. For every \<open>n \<ge> 1\<close> the function returns, the visits it has recorded
  are \<open>n - 1\<close> in all, and every value of the result is a count of at least 1 divided
  by \<open>n\<close>. The generator may be any that draws from the population it is given.
\<close>

theorem sample_pagerank_records_n_minus_1:
  assumes "corpus \<noteq> []" and "1 \<le> n" and "0 < d" and "d < 1" and "draws_from_population R"
  shows "sample_pagerank R s corpus d 1 = Inr [] \<and>
         (\<exists>visits. sample_pagerank R s corpus d n =
                      Inr (map (\<lambda>(page, v). (page, real_of_int v / real_of_int n)) visits) \<and>
                    distinct (map fst visits) \<and>
                    (\<forall>v \<in> set (map snd visits). 1 \<le> v) \<and>
                    sum_list (map snd visits) = n - 1)"
proof -
  obtain p s' where dr: "draw_choice R s (map fst corpus) = (p, s')"
    by (cases "draw_choice R s (map fst corpus)")
  have "fst (draw_choice R s (map fst corpus)) \<in> set (map fst corpus)"
    using assms(1,5) by (intro draw_choice_member) simp_all
  then have mem: "p \<in> set (map fst corpus)" using dr by simp
  have one: "sample_pagerank R s corpus d 1 = Inr []"
    using assms(1) dr by (simp add: sample_pagerank_def random_choice_def normalize_visits_def)
  from sample_loop_returns[OF assms(5,3,4) mem] obtain visits where
    lp: "sample_loop R corpus d (nat (n - 1)) p s' [] = Inr visits" by blast
  from sample_loop_counts[OF lp] assms(2) have
    cnt: "sum_list (map snd visits) = n - 1" "distinct (map fst visits)"
         "\<forall>v \<in> set (map snd visits). 1 \<le> v" by auto
  have "normalize_visits visits n =
          Inr (map (\<lambda>(page, v). (page, real_of_int v / real_of_int n)) visits)"
    using assms(2) by (cases "visits = []") (auto simp: normalize_visits_def)
  then have "sample_pagerank R s corpus d n =
          Inr (map (\<lambda>(page, v). (page, real_of_int v / real_of_int n)) visits)"
    using assms(1) dr lp by (simp add: sample_pagerank_def random_choice_def)
  then show ?thesis using one cnt by blast
qed

theorem sample_pagerank_records_n_minus_1_witness:
  "dangling_example \<noteq> [] \<and> (1::int) \<le> 5 \<and> (0::real) < 85 / 100 \<and> (85 / 100 :: real) < 1 \<and>
   draws_from_population (round_robin :: (nat, string) random_source) \<and>
   sample_pagerank round_robin (0::nat) dangling_example (85 / 100) 1 = Inr [] \<and>
   (\<exists>visits. sample_pagerank round_robin (0::nat) dangling_example (85 / 100) 5 =
                      Inr (map (\<lambda>(page, v). (page, real_of_int v / real_of_int 5)) visits) \<and>
                    distinct (map fst visits) \<and>
                    (\<forall>v \<in> set (map snd visits). 1 \<le> v) \<and>
                    sum_list (map snd visits) = 5 - 1)"
proof -
  have a: "dangling_example \<noteq> []" by (simp add: dangling_example_def)
  have b: "(1::int) \<le> 5" by simp
  have c: "(0::real) < 85 / 100" by simp
  have d: "(85 / 100 :: real) < 1" by simp
  have e: "draws_from_population (round_robin :: (nat, string) random_source)"
    by (rule round_robin_draws)
  show ?thesis
    using a b c d e sample_pagerank_records_n_minus_1[OF a b c d e, of 0] by simp
qed

text \<open>
  Claim C1. The values of the distribution that \<open>sample_pagerank\<close> returns should sum
  to 1, each counter divided by the number of transitions recorded. With \<open>n = 2\<close> on the
  two-page cycle one transition is recorded and its counter is divided by 2: the
  values sum to \<open>1/2\<close>.
\<close>

theorem sample_pagerank_sum_two_samples:
  "sample_pagerank round_robin (0::nat) two_cycle (85 / 100) 2 = Inr [(''B'', 1 / 2)] \<and>
   sum_list (map snd [(''B'', 1 / 2 :: real)]) = 1 / 2"
  by code_simp

text \<open>
  Claim C2. The distribution that \<open>sample_pagerank\<close> returns should have an entry for
  every page of the corpus. With \<open>n = 3\<close> on the three-page corpus two visits are recorded,
  and page \<open>A\<close>, not visited, is not a key of the result.
\<close>

theorem sample_pagerank_unvisited_page_missing:
  "sample_pagerank round_robin (0::nat) dangling_example (85 / 100) 3 =
     Inr [(''B'', 1 / 3), (''C'', 1 / 3)] \<and>
   dict_get [(''B'', 1 / 3 :: real), (''C'', 1 / 3)] ''A'' = Inl KeyError"
  by code_simp


section \<open>The iterative engine\<close>

subsection \<open>What the loops compute\<close>

lemma dict_get_rank_of:
  "q \<in> set (map fst pr) \<Longrightarrow> dict_get pr q = Inr (rank_of pr q)"
  by (cases "map_of pr q") (auto simp: dict_get_def rank_of_def map_of_eq_None_iff)

lemma choice_prob_loop_eq:
  "set (map fst rest) \<subseteq> set (map fst pr) \<Longrightarrow>
     choice_prob_loop (1 / real N) pr p rest acc =
       Inr (acc + (\<Sum>e \<leftarrow> rest. rank_of pr (fst e) * link_weight N p e))"
proof (induction rest arbitrary: acc)
  case Nil
  then show ?case by simp
next
  case (Cons e rest)
  obtain q links where e: "e = (q, links)" by (cases e)
  have g: "dict_get pr q = Inr (rank_of pr q)"
    using Cons.prems e by (intro dict_get_rank_of) simp
  have sub: "set (map fst rest) \<subseteq> set (map fst pr)" using Cons.prems by simp
  show ?case
    unfolding e using g Cons.IH[OF sub]
    by (simp add: link_weight_def algebra_simps divide_inverse)
qed

lemma new_rank_loop_eq:
  "set (map fst c) \<subseteq> set (map fst pr) \<Longrightarrow>
     new_rank_loop c d rp (1 / real N) pr rest =
       Inr (map (\<lambda>e. (fst e, rp + d * (\<Sum>e' \<leftarrow> c. rank_of pr (fst e') * link_weight N (fst e) e')))
              rest)"
proof (induction rest)
  case Nil
  then show ?case by simp
next
  case (Cons e rest)
  obtain p links where e: "e = (p, links)" by (cases e)
  show ?case
    unfolding e using Cons.IH[OF Cons.prems] choice_prob_loop_eq[OF Cons.prems, of N p 0]
    by simp
qed


subsection \<open>One pass preserves the total and contracts distances\<close>








subsection \<open>A pass on the dict of a rank function\<close>












subsection \<open>The loop reaches its exit\<close>



subsection \<open>What a pass over the reals returns\<close>

lemma new_rank_loop_keys:
  "new_rank_loop c d rp ip pr rest = Inr raw \<Longrightarrow> map fst raw = map fst rest"
proof (induction rest arbitrary: raw)
  case Nil
  then show ?case by simp
next
  case (Cons e rest)
  obtain p links where e: "e = (p, links)" by (cases e)
  from Cons.prems obtain cp where cp: "choice_prob_loop ip pr p c 0 = Inr cp"
    unfolding e by (cases "choice_prob_loop ip pr p c 0") simp_all
  from Cons.prems cp obtain raw' where
    raw': "new_rank_loop c d rp ip pr rest = Inr raw'" "raw = (p, rp + d * cp) # raw'"
    unfolding e by (cases "new_rank_loop c d rp ip pr rest") auto
  show ?case using Cons.IH[OF raw'(1)] raw'(2) e by simp
qed

lemma sum_list_divide_values:
  "sum_list (map snd (map (\<lambda>(page, rank). (page, rank / s)) raw)) =
     sum_list (map snd raw) / (s::real)"
  by (induction raw) (auto simp: add_divide_distrib)

lemma normalize_ranks_result:
  assumes "normalize_ranks raw = Inr new" and "raw \<noteq> []"
  shows "map fst new = map fst raw \<and> sum_list (map snd new) = 1"
proof -
  let ?s = "sum_list (map snd raw)"
  have nz: "?s \<noteq> 0" and new: "new = map (\<lambda>(page, rank). (page, rank / ?s)) raw"
    using assms by (auto simp: normalize_ranks_def Let_def split: if_splits)
  have "map fst new = map fst raw" unfolding new by (induction raw) auto
  moreover have "sum_list (map snd new) = 1"
    unfolding new sum_list_divide_values using nz by simp
  ultimately show ?thesis by blast
qed

lemma normalize_ranks_error: "normalize_ranks raw = Inl e \<Longrightarrow> e = ZeroDivisionError"
  by (auto simp: normalize_ranks_def Let_def split: if_splits)

lemma sweep_result:
  assumes "sweep c d rp ip pr = Inr (new, mc)" and "c \<noteq> []"
  shows "map fst new = map fst c \<and> sum_list (map snd new) = 1"
proof -
  from assms(1) obtain raw where raw: "new_rank_loop c d rp ip pr c = Inr raw"
    unfolding sweep_def by (cases "new_rank_loop c d rp ip pr c") simp_all
  from assms(1) raw obtain new' where new': "normalize_ranks raw = Inr new'"
    unfolding sweep_def by (cases "normalize_ranks raw") simp_all
  from assms(1) raw new' have eq: "new' = new"
    unfolding sweep_def by (cases "max_change_loop pr new' c 0") simp_all
  have k: "map fst raw = map fst c" using raw by (rule new_rank_loop_keys)
  then have "raw \<noteq> []" using assms(2) by auto
  from normalize_ranks_result[OF new' this] k eq show ?thesis by simp
qed

lemma max_change_loop_returns:
  "set (map fst rest) \<subseteq> set (map fst pr) \<Longrightarrow> set (map fst rest) \<subseteq> set (map fst new) \<Longrightarrow>
     \<exists>m. max_change_loop pr new rest mc = Inr m"
proof (induction rest arbitrary: mc)
  case Nil
  then show ?case by simp
next
  case (Cons e rest)
  obtain p links where e: "e = (p, links)" by (cases e)
  have g: "dict_get pr p = Inr (rank_of pr p)" "dict_get new p = Inr (rank_of new p)"
    using Cons.prems e by (simp_all add: dict_get_rank_of)
  have sub: "set (map fst rest) \<subseteq> set (map fst pr)" "set (map fst rest) \<subseteq> set (map fst new)"
    using Cons.prems by simp_all
  show ?case unfolding e using g Cons.IH[OF sub] by (simp add: Let_def)
qed

lemma sweep_error:
  assumes "sweep c d rp (1 / real N) pr = Inl e" and "map fst pr = map fst c"
  shows "e = ZeroDivisionError"
proof -
  have sub: "set (map fst c) \<subseteq> set (map fst pr)" using assms(2) by simp
  obtain raw where raw: "new_rank_loop c d rp (1 / real N) pr c = Inr raw"
    using new_rank_loop_eq[OF sub] by blast
  have k: "map fst raw = map fst c" using raw by (rule new_rank_loop_keys)
  show ?thesis
  proof (cases "normalize_ranks raw")
    case (Inl e')
    then show ?thesis using assms(1) raw normalize_ranks_error[OF Inl]
      by (simp add: sweep_def)
  next
    case (Inr new)
    have "map fst new = map fst c"
    proof (cases "raw = []")
      case True
      then show ?thesis using Inr k by (simp add: normalize_ranks_def)
    next
      case False
      then show ?thesis using normalize_ranks_result[OF Inr False] k by simp
    qed
    then obtain m where "max_change_loop pr new c 0 = Inr m"
      using max_change_loop_returns[of c pr new 0] assms(2) by auto
    then show ?thesis using assms(1) raw Inr by (simp add: sweep_def)
  qed
qed

lemma initial_rank_sum:
  "c \<noteq> [] \<Longrightarrow> sum_list (map snd (map (\<lambda>(page_name, _). (page_name, 1 / real (length c))) (c::'k corpus))) = 1"
proof -
  assume ne: "c \<noteq> []"
  have "map snd (map (\<lambda>(page_name, _). (page_name, 1 / real (length c))) c) =
        map (\<lambda>e. 1 / real (length c)) c"
    by (simp add: case_prod_beta)
  then show ?thesis using ne by (simp add: sum_list_triv del: map_map)
qed






section \<open>The loop of the iterative engine\<close>

subsection \<open>In exact arithmetic a pass is the pass over the reals\<close>

lemma fsum_exact_from: "foldl (+) a xs = a + sum_list (xs :: real list)"
  by (induction xs arbitrary: a) simp_all

lemma exact_ops:
  "fadd exact = (+)" "fsub exact = (-)" "fmul exact = (*)" "fdiv exact = (/)"
  "fabs exact = abs" "fgt exact a b \<longleftrightarrow> b < a" "fis_zero exact a \<longleftrightarrow> a = 0"
  "fconst exact = of_rat"
  by (simp_all add: exact_def)

lemma fsum_exact: "fsum exact xs = sum_list xs"
  by (simp add: fsum_def exact_ops fsum_exact_from)

lemma choice_prob_loop_fp_exact:
  "choice_prob_loop_fp exact ip pr p rest acc = choice_prob_loop ip pr p rest acc"
proof (induction rest arbitrary: acc)
  case Nil
  show ?case by simp
next
  case (Cons e rest)
  obtain q links where e: "e = (q, links)" by (cases e)
  show ?case unfolding e
    by (cases "dict_get pr q") (simp_all add: Cons.IH exact_ops of_rat_of_nat_eq)
qed

lemma new_rank_loop_fp_exact:
  "new_rank_loop_fp exact c d rp ip pr rest = new_rank_loop c d rp ip pr rest"
proof (induction rest)
  case Nil
  show ?case by simp
next
  case (Cons e rest)
  obtain p links where e: "e = (p, links)" by (cases e)
  show ?case unfolding e
    by (simp add: Cons.IH choice_prob_loop_fp_exact exact_ops cong: sum.case_cong)
qed

lemma normalize_ranks_fp_exact: "normalize_ranks_fp exact raw = normalize_ranks raw"
  by (simp add: normalize_ranks_fp_def normalize_ranks_def fsum_exact exact_ops Let_def)

lemma max_change_loop_fp_exact:
  "max_change_loop_fp exact pr new rest mc = max_change_loop pr new rest mc"
proof (induction rest arbitrary: mc)
  case Nil
  show ?case by simp
next
  case (Cons e rest)
  obtain p links where e: "e = (p, links)" by (cases e)
  show ?case unfolding e
    by (simp add: Cons.IH exact_ops Let_def cong: sum.case_cong)
qed

lemma sweep_fp_exact: "sweep_fp exact c d rp ip pr = sweep c d rp ip pr"
  by (simp add: sweep_fp_def sweep_def new_rank_loop_fp_exact normalize_ranks_fp_exact
                max_change_loop_fp_exact exact_ops cong: sum.case_cong)

subsection \<open>Unfolding the loop\<close>

lemma iterate_loop_exit:
  "\<not> fgt ar mc (fconst ar (1 / 1000)) \<Longrightarrow> iterate_loop ar c d rp ip pr mc = Some (Inr pr)"
  by (subst iterate_loop.simps) simp

lemma iterate_loop_pass:
  "fgt ar mc (fconst ar (1 / 1000)) \<Longrightarrow> sweep_fp ar c d rp ip pr = Inr (new, mc') \<Longrightarrow>
     iterate_loop ar c d rp ip pr mc = iterate_loop ar c d rp ip new mc'"
  by (subst iterate_loop.simps) simp

lemma iterate_loop_raise:
  "fgt ar mc (fconst ar (1 / 1000)) \<Longrightarrow> sweep_fp ar c d rp ip pr = Inl e \<Longrightarrow>
     iterate_loop ar c d rp ip pr mc = Some (Inl e)"
  by (subst iterate_loop.simps) simp

lemma exact_threshold: "fgt exact mc (fconst exact (1 / 1000)) \<longleftrightarrow> 1 / 1000 < mc"
  by (simp add: exact_ops of_rat_divide)

lemma iterate_loop_stop:
  "mc \<le> 1 / 1000 \<Longrightarrow> iterate_loop exact c d rp ip pr mc = Some (Inr pr)"
  by (rule iterate_loop_exit) (simp add: exact_threshold)

lemma iterate_loop_step:
  "1 / 1000 < mc \<Longrightarrow> sweep c d rp ip pr = Inr (new, mc') \<Longrightarrow>
     iterate_loop exact c d rp ip pr mc = iterate_loop exact c d rp ip new mc'"
  by (rule iterate_loop_pass) (simp_all add: exact_threshold sweep_fp_exact)

lemma iterate_loop_error:
  "1 / 1000 < mc \<Longrightarrow> sweep c d rp ip pr = Inl e \<Longrightarrow>
     iterate_loop exact c d rp ip pr mc = Some (Inl e)"
  by (rule iterate_loop_raise) (simp_all add: exact_threshold sweep_fp_exact)

lemma iterate_pagerank_unfold:
  "c \<noteq> [] \<Longrightarrow> after_sweeps c d 0 = Inr (pr, mc) \<Longrightarrow>
     iterate_pagerank exact c d =
       iterate_loop exact c d ((1 - d) / real (length c)) (1 / real (length c)) pr mc"
proof -
  assume ne: "c \<noteq> []" and s: "after_sweeps c d 0 = Inr (pr, mc)"
  have ops: "fdiv exact (fsub exact (fconst exact 1) d) (fconst exact (of_nat (length c))) =
               (1 - d) / real (length c)"
            "fconst exact (1 / of_nat (length c)) = 1 / real (length c)"
    by (simp_all add: exact_ops of_rat_divide of_rat_of_nat_eq)
  show ?thesis using ne s by (auto simp: iterate_pagerank_def Let_def ops)
qed

subsection \<open>In exact arithmetic the loop returns the first iterate that has settled\<close>




lemma iterate_loop_first_settled:
  assumes run: "iterate_loop ar c d rp ip pr mc = Some res"
  shows "ar = exact \<longrightarrow> rp = (1 - d) / real (length c) \<longrightarrow> ip = 1 / real (length c) \<longrightarrow>
         (\<forall>j r. after_sweeps c d j = Inr (pr, mc) \<longrightarrow> res = Inr r \<longrightarrow>
            (\<exists>k mc'. j \<le> k \<and> after_sweeps c d k = Inr (r, mc') \<and> mc' \<le> 1 / 1000 \<and>
               (\<forall>i. j \<le> i \<and> i < k \<longrightarrow>
                  (\<exists>p m. after_sweeps c d i = Inr (p, m) \<and> 1 / 1000 < m))))"
proof (rule iterate_loop.raw_induct[OF _ run], goal_cases)
  case (1 loop ar c d rp ip pr mc res)
  show ?case
  proof (intro impI allI)
    fix j r
    assume ar: "ar = exact" and rp: "rp = (1 - d) / real (length c)"
      and ip: "ip = 1 / real (length c)"
      and st: "after_sweeps c d j = Inr (pr, mc)" and res: "res = Inr r"
    show "\<exists>k mc'. j \<le> k \<and> after_sweeps c d k = Inr (r, mc') \<and> mc' \<le> 1 / 1000 \<and>
            (\<forall>i. j \<le> i \<and> i < k \<longrightarrow> (\<exists>p m. after_sweeps c d i = Inr (p, m) \<and> 1 / 1000 < m))"
    proof (cases "1 / 1000 < mc")
      case False
      then have "r = pr" using 1(2) ar res by (simp add: exact_threshold)
      then show ?thesis using st False by (intro exI[of _ j] exI[of _ mc]) auto
    next
      case True
      show ?thesis
      proof (cases "sweep c d rp ip pr")
        case (Inl e)
        then show ?thesis using 1(2) ar res True by (simp add: exact_threshold sweep_fp_exact)
      next
        case (Inr st')
        obtain new mc' where st': "st' = (new, mc')" by (cases st')
        have call: "loop ar c d rp ip new mc' = Some res"
          using 1(2) ar True Inr st' by (simp add: exact_threshold sweep_fp_exact)
        have nxt: "after_sweeps c d (Suc j) = Inr (new, mc')"
          using st Inr st' rp ip by simp
        from 1(1)[OF call] ar rp ip nxt res obtain k m' where
          k: "Suc j \<le> k" "after_sweeps c d k = Inr (r, m')" "m' \<le> 1 / 1000"
             "\<forall>i. Suc j \<le> i \<and> i < k \<longrightarrow> (\<exists>p m. after_sweeps c d i = Inr (p, m) \<and> 1 / 1000 < m)"
          by blast
        have "\<exists>p m. after_sweeps c d i = Inr (p, m) \<and> 1 / 1000 < m" if "j \<le> i" "i < k" for i
        proof (cases "i = j")
          case True
          then show ?thesis using st \<open>1 / 1000 < mc\<close> by blast
        next
          case False
          then show ?thesis using that k(4) by (simp add: Suc_le_eq)
        qed
        then show ?thesis using k(1,2,3) by (intro exI[of _ k] exI[of _ m']) auto
      qed
    qed
  qed
qed

lemma iterate_pagerank_first_settled:
  assumes "iterate_pagerank exact c d = Some (Inr r)"
  shows "\<exists>k mc. after_sweeps c d k = Inr (r, mc) \<and> mc \<le> 1 / 1000 \<and>
           (\<forall>i < k. \<exists>p m. after_sweeps c d i = Inr (p, m) \<and> 1 / 1000 < m)"
proof -
  have ne: "c \<noteq> []" using assms by (auto simp: iterate_pagerank_def)
  obtain pr mc where s0: "after_sweeps c d 0 = Inr (pr, mc)" using ne by simp
  have lp: "iterate_loop exact c d ((1 - d) / real (length c)) (1 / real (length c)) pr mc =
              Some (Inr r)"
    using assms iterate_pagerank_unfold[OF ne s0] by simp
  from iterate_loop_first_settled[OF lp] s0 show ?thesis by fastforce
qed

lemma after_sweeps_sum:
  "after_sweeps c d k = Inr (pr, mc) \<Longrightarrow> sum_list (map snd pr) = 1"
proof (cases k)
  case 0
  assume "after_sweeps c d k = Inr (pr, mc)"
  then have "c \<noteq> []" "pr = map (\<lambda>(page_name, _). (page_name, 1 / real (length c))) c"
    using 0 by (auto split: if_splits)
  then show ?thesis using initial_rank_sum[of c] by simp
next
  case (Suc j)
  assume a: "after_sweeps c d k = Inr (pr, mc)"
  then obtain st where st: "after_sweeps c d j = Inr st"
    using Suc by (cases "after_sweeps c d j") simp_all
  then have sw: "sweep c d ((1 - d) / real (length c)) (1 / real (length c)) (fst st) = Inr (pr, mc)"
    using a Suc by (simp add: case_prod_beta)
  have "c \<noteq> []"
  proof
    assume "c = []"
    then have "after_sweeps c d j = Inl ZeroDivisionError" by (induction j) simp_all
    then show False using st by simp
  qed
  then show ?thesis using sweep_result[OF sw] by simp
qed

lemma sweep_renormalises:
  assumes "sweep c d rp ip pr = Inr (new, mc)" and "c \<noteq> []"
  shows "\<exists>raw. new_rank_loop c d rp ip pr c = Inr raw \<and> sum_list (map snd raw) \<noteq> 0 \<and>
           new = map (\<lambda>(page, rank). (page, rank / sum_list (map snd raw))) raw"
proof -
  from assms(1) obtain raw where raw: "new_rank_loop c d rp ip pr c = Inr raw"
    unfolding sweep_def by (cases "new_rank_loop c d rp ip pr c") simp_all
  from assms(1) raw obtain new' where new': "normalize_ranks raw = Inr new'"
    unfolding sweep_def by (cases "normalize_ranks raw") simp_all
  from assms(1) raw new' have eq: "new' = new"
    unfolding sweep_def by (cases "max_change_loop pr new' c 0") simp_all
  have "raw \<noteq> []" using new_rank_loop_keys[OF raw] assms(2) by auto
  then have "sum_list (map snd raw) \<noteq> 0 \<and>
             new' = map (\<lambda>(page, rank). (page, rank / sum_list (map snd raw))) raw"
    using new' by (auto simp: normalize_ranks_def Let_def split: if_splits)
  then show ?thesis using raw eq by blast
qed

subsection \<open>What a pass and the loop return in any arithmetic\<close>

lemma dict_get_returns: "k \<in> set (map fst m) \<Longrightarrow> \<exists>v. dict_get m k = Inr v"
  by (cases "map_of m k") (auto simp: dict_get_def map_of_eq_None_iff)

lemma choice_prob_loop_fp_returns:
  "set (map fst rest) \<subseteq> set (map fst pr) \<Longrightarrow>
     \<exists>v. choice_prob_loop_fp ar ip pr p rest acc = Inr v"
proof (induction rest arbitrary: acc)
  case Nil
  show ?case by simp
next
  case (Cons e rest)
  obtain q links where e: "e = (q, links)" by (cases e)
  from Cons.prems e obtain r where g: "dict_get pr q = Inr r"
    using dict_get_returns[of q pr] by auto
  have sub: "set (map fst rest) \<subseteq> set (map fst pr)" using Cons.prems by simp
  show ?case unfolding e using g Cons.IH[OF sub] by simp
qed

lemma new_rank_loop_fp_returns:
  "set (map fst c) \<subseteq> set (map fst pr) \<Longrightarrow>
     \<exists>raw. new_rank_loop_fp ar c d rp ip pr rest = Inr raw"
proof (induction rest)
  case Nil
  show ?case by simp
next
  case (Cons e rest)
  obtain p links where e: "e = (p, links)" by (cases e)
  from choice_prob_loop_fp_returns[OF Cons.prems] obtain v where
    v: "choice_prob_loop_fp ar ip pr p c (fconst ar 0) = Inr v" by blast
  from Cons.IH[OF Cons.prems] obtain raw where
    "new_rank_loop_fp ar c d rp ip pr rest = Inr raw" by blast
  then show ?case unfolding e using v by simp
qed

lemma new_rank_loop_fp_keys:
  "new_rank_loop_fp ar c d rp ip pr rest = Inr raw \<Longrightarrow> map fst raw = map fst rest"
proof (induction rest arbitrary: raw)
  case Nil
  then show ?case by simp
next
  case (Cons e rest)
  obtain p links where e: "e = (p, links)" by (cases e)
  from Cons.prems obtain cp where
    cp: "choice_prob_loop_fp ar ip pr p c (fconst ar 0) = Inr cp"
    unfolding e by (cases "choice_prob_loop_fp ar ip pr p c (fconst ar 0)") simp_all
  from Cons.prems cp obtain raw' where
    raw': "new_rank_loop_fp ar c d rp ip pr rest = Inr raw'"
          "raw = (p, fadd ar rp (fmul ar d cp)) # raw'"
    unfolding e by (cases "new_rank_loop_fp ar c d rp ip pr rest") auto
  show ?case using Cons.IH[OF raw'(1)] raw'(2) e by simp
qed

lemma normalize_ranks_fp_result:
  assumes "normalize_ranks_fp ar raw = Inr new"
  shows "new = map (\<lambda>(page, rank). (page, fdiv ar rank (fsum ar (map snd raw)))) raw \<and>
         (raw \<noteq> [] \<longrightarrow> \<not> fis_zero ar (fsum ar (map snd raw)))"
  using assms by (auto simp: normalize_ranks_fp_def Let_def split: if_splits)

lemma normalize_ranks_fp_keys:
  "normalize_ranks_fp ar raw = Inr new \<Longrightarrow> map fst new = map fst raw"
  by (drule normalize_ranks_fp_result) (auto simp: case_prod_beta)

lemma normalize_ranks_fp_error: "normalize_ranks_fp ar raw = Inl e \<Longrightarrow> e = ZeroDivisionError"
  by (auto simp: normalize_ranks_fp_def Let_def split: if_splits)

lemma max_change_loop_fp_returns:
  "set (map fst rest) \<subseteq> set (map fst pr) \<Longrightarrow> set (map fst rest) \<subseteq> set (map fst new) \<Longrightarrow>
     \<exists>m. max_change_loop_fp ar pr new rest mc = Inr m"
proof (induction rest arbitrary: mc)
  case Nil
  show ?case by simp
next
  case (Cons e rest)
  obtain p links where e: "e = (p, links)" by (cases e)
  from Cons.prems e obtain a b where g: "dict_get pr p = Inr a" "dict_get new p = Inr b"
    using dict_get_returns[of p pr] dict_get_returns[of p new] by auto
  have sub: "set (map fst rest) \<subseteq> set (map fst pr)" "set (map fst rest) \<subseteq> set (map fst new)"
    using Cons.prems by simp_all
  show ?case unfolding e using g Cons.IH[OF sub] by (simp add: Let_def)
qed

lemma sweep_fp_parts:
  assumes "sweep_fp ar c d rp ip pr = Inr (new, mc)"
  shows "\<exists>raw. new_rank_loop_fp ar c d rp ip pr c = Inr raw \<and> normalize_ranks_fp ar raw = Inr new \<and>
           max_change_loop_fp ar pr new c (fconst ar 0) = Inr mc"
proof -
  from assms obtain raw where raw: "new_rank_loop_fp ar c d rp ip pr c = Inr raw"
    unfolding sweep_fp_def by (cases "new_rank_loop_fp ar c d rp ip pr c") simp_all
  from assms raw obtain new' where new': "normalize_ranks_fp ar raw = Inr new'"
    unfolding sweep_fp_def by (cases "normalize_ranks_fp ar raw") simp_all
  from assms raw new' have "new' = new \<and> max_change_loop_fp ar pr new' c (fconst ar 0) = Inr mc"
    unfolding sweep_fp_def by (cases "max_change_loop_fp ar pr new' c (fconst ar 0)") simp_all
  then show ?thesis using raw new' by auto
qed

lemma sweep_fp_keys:
  assumes "sweep_fp ar c d rp ip pr = Inr (new, mc)"
  shows "map fst new = map fst c"
proof -
  from sweep_fp_parts[OF assms] obtain raw where
    "new_rank_loop_fp ar c d rp ip pr c = Inr raw" "normalize_ranks_fp ar raw = Inr new" by blast
  then show ?thesis using new_rank_loop_fp_keys normalize_ranks_fp_keys by metis
qed

lemma sweep_fp_error:
  assumes "sweep_fp ar c d rp ip pr = Inl e" and "map fst pr = map fst c"
  shows "e = ZeroDivisionError"
proof -
  have sub: "set (map fst c) \<subseteq> set (map fst pr)" using assms(2) by simp
  from new_rank_loop_fp_returns[OF sub] obtain raw where
    raw: "new_rank_loop_fp ar c d rp ip pr c = Inr raw" by blast
  have k: "map fst raw = map fst c" using raw by (rule new_rank_loop_fp_keys)
  show ?thesis
  proof (cases "normalize_ranks_fp ar raw")
    case (Inl e')
    then show ?thesis using assms(1) raw normalize_ranks_fp_error[OF Inl]
      by (simp add: sweep_fp_def)
  next
    case (Inr new)
    have "map fst new = map fst c" using normalize_ranks_fp_keys[OF Inr] k by simp
    then obtain m where "max_change_loop_fp ar pr new c (fconst ar 0) = Inr m"
      using max_change_loop_fp_returns[of c pr new ar "fconst ar 0"] assms(2) by auto
    then show ?thesis using assms(1) raw Inr by (simp add: sweep_fp_def)
  qed
qed

lemma sweep_fp_outcome:
  assumes "map fst pr = map fst c"
  shows "case sweep_fp ar c d rp ip pr of
           Inl e \<Rightarrow> e = ZeroDivisionError
         | Inr (new, mc) \<Rightarrow> map fst new = map fst c"
proof (cases "sweep_fp ar c d rp ip pr")
  case (Inl e)
  then show ?thesis using sweep_fp_error[OF Inl assms] by simp
next
  case (Inr st)
  obtain new mc where "st = (new, mc)" by (cases st)
  then show ?thesis using Inr sweep_fp_keys[of ar c d rp ip pr new mc] by simp
qed

lemma iterate_loop_outcome:
  assumes run: "iterate_loop ar c d rp ip pr mc = Some res"
  shows "map fst pr = map fst c \<longrightarrow>
           (case res of Inl e \<Rightarrow> e = ZeroDivisionError | Inr r \<Rightarrow> map fst r = map fst c)"
proof (rule iterate_loop.raw_induct[OF _ run], goal_cases)
  case (1 loop ar c d rp ip pr mc res)
  show ?case
  proof
    assume keys: "map fst pr = map fst c"
    show "case res of Inl e \<Rightarrow> e = ZeroDivisionError | Inr r \<Rightarrow> map fst r = map fst c"
    proof (cases "fgt ar mc (fconst ar (1 / 1000))")
      case False
      then show ?thesis using 1(2) keys by auto
    next
      case True
      show ?thesis
      proof (cases "sweep_fp ar c d rp ip pr")
        case (Inl e)
        then have "res = Inl e" using True 1(2) by simp
        then show ?thesis using sweep_fp_error[OF Inl keys] by simp
      next
        case (Inr st)
        obtain new mc' where st: "st = (new, mc')" by (cases st)
        have call: "loop ar c d rp ip new mc' = Some res" using True 1(2) Inr st by simp
        have "map fst new = map fst c" using sweep_fp_keys[of ar c d rp ip pr new mc'] Inr st by simp
        then show ?thesis using 1(1)[OF call] by simp
      qed
    qed
  qed
qed

lemma iterate_pagerank_outcome:
  assumes "iterate_pagerank ar c d = Some res"
  shows "case res of Inl e \<Rightarrow> e = ZeroDivisionError | Inr r \<Rightarrow> map fst r = map fst c"
proof (cases "c = []")
  case True
  then show ?thesis using assms by (auto simp: iterate_pagerank_def)
next
  case False
  let ?ip = "fconst ar (1 / of_nat (length c))"
  let ?pr = "map (\<lambda>(page_name, _). (page_name, ?ip)) c"
  have k: "map fst ?pr = map fst c" by (simp add: case_prod_beta)
  obtain rp where
    lp: "iterate_loop ar c d rp ?ip ?pr ?ip = Some res"
    using assms False by (simp add: iterate_pagerank_def Let_def)
  show ?thesis using iterate_loop_outcome[OF lp] k by blast
qed

subsection \<open>A loop whose passes alternate between two states never returns\<close>

lemma iterate_loop_cycle:
  assumes s12: "sweep_fp ar c d rp ip s1 = Inr (s2, m2)"
    and s21: "sweep_fp ar c d rp ip s2 = Inr (s1, m1)"
    and g1: "fgt ar m1 (fconst ar (1 / 1000))" and g2: "fgt ar m2 (fconst ar (1 / 1000))"
  shows "iterate_loop ar c d rp ip s1 m1 = None"
proof (rule ccontr)
  assume "iterate_loop ar c d rp ip s1 m1 \<noteq> None"
  then obtain res where run: "iterate_loop ar c d rp ip s1 m1 = Some res" by blast
  have "\<not> ((ar', c', d', rp', ip') = (ar, c, d, rp, ip) \<and>
            ((pr, mc) = (s1, m1) \<or> (pr, mc) = (s2, m2)))"
    if "iterate_loop ar' c' d' rp' ip' pr mc = Some res'" for ar' c' d' rp' ip' pr mc res'
  proof (rule iterate_loop.raw_induct[OF _ that], goal_cases)
    case (1 loop ar' c' d' rp' ip' pr mc res')
    note IH = 1(1) and body = 1(2)
    show ?case
    proof
      assume a: "(ar', c', d', rp', ip') = (ar, c, d, rp, ip) \<and>
                 ((pr, mc) = (s1, m1) \<or> (pr, mc) = (s2, m2))"
      then consider (first) "(pr, mc) = (s1, m1)" | (second) "(pr, mc) = (s2, m2)" by blast
      then show False
      proof cases
        case first
        then have "loop ar c d rp ip s2 m2 = Some res'" using body a s12 g1 by simp
        from IH[OF this] show False by simp
      next
        case second
        then have "loop ar c d rp ip s1 m1 = Some res'" using body a s21 g2 by simp
        from IH[OF this] show False by simp
      qed
    qed
  qed
  from this[OF run] show False by simp
qed

subsection \<open>Runs in double arithmetic\<close>







lemma sink_pair_setup:
  "fdiv binary64 (fsub binary64 (fconst binary64 1) (Finite 2))
       (fconst binary64 (of_nat (length sink_pair))) = Finite (- (1 / 2))"
  "fconst binary64 (1 / of_nat (length sink_pair)) = Finite (1 / 2)"
  "map (\<lambda>(page_name, _). (page_name, Finite (1 / 2))) sink_pair =
     [(''A'', Finite (1 / 2)), (''B'', Finite (1 / 2))]"
  "fgt binary64 (Finite (1 / 2)) (fconst binary64 (1 / 1000))"
  by code_simp+

lemma sink_pair_pass_1:
  "sweep_fp binary64 sink_pair (Finite 2) (Finite (- (1 / 2))) (Finite (1 / 2))
     [(''A'', Finite (1 / 2)), (''B'', Finite (1 / 2))] =
   Inr ([(''A'', Finite 0), (''B'', Finite 1)], Finite (1 / 2))"
  by code_simp

lemma sink_pair_pass_2:
  "sweep_fp binary64 sink_pair (Finite 2) (Finite (- (1 / 2))) (Finite (1 / 2))
     [(''A'', Finite 0), (''B'', Finite 1)] =
   Inr ([(''A'', Finite (1 / 2)), (''B'', Finite (1 / 2))], Finite (1 / 2))"
  by code_simp

lemma sink_pair_never_returns: "iterate_pagerank binary64 sink_pair (Finite 2) = None"
proof -
  have ne: "length sink_pair \<noteq> 0" by (simp add: sink_pair_def)
  have "iterate_pagerank binary64 sink_pair (Finite 2) =
          iterate_loop binary64 sink_pair (Finite 2) (Finite (- (1 / 2))) (Finite (1 / 2))
            [(''A'', Finite (1 / 2)), (''B'', Finite (1 / 2))] (Finite (1 / 2))"
    using ne by (simp only: iterate_pagerank_def Let_def sink_pair_setup if_False)
  also have "\<dots> = None"
    by (rule iterate_loop_cycle[OF sink_pair_pass_1 sink_pair_pass_2
              sink_pair_setup(4) sink_pair_setup(4)])
  finally show ?thesis .
qed

lemma single_page_double:
  "iterate_pagerank binary64 [(''A'', {||})] (Finite 2) = Some (Inr [(''A'', Finite 1)])"
  by code_simp

lemma not_a_number_returned:
  "iterate_pagerank binary64 [(''A'', {||})] PlusInf = Some (Inr [(''A'', NaN)])"
  by code_simp

subsection \<open>Runs in exact arithmetic\<close>

lemma stray_link_pass:
  "sweep stray_link (85 / 100) (3 / 40) (1 / 2) [(''A'', 1 / 2), (''B'', 1 / 2)] =
     Inr ([(''A'', 40 / 63), (''B'', 23 / 63)], 17 / 126)"
  by code_simp

lemma dangling_tenth_pass_1:
  "sweep dangling_example (1 / 10) (3 / 10) (1 / 3)
     [(''A'', 1 / 3), (''B'', 1 / 3), (''C'', 1 / 3)] =
   Inr ([(''A'', 31 / 90), (''B'', 31 / 90), (''C'', 14 / 45)], 1 / 45)"
  by code_simp

lemma dangling_tenth_pass_2:
  "sweep dangling_example (1 / 10) (3 / 10) (1 / 3)
     [(''A'', 31 / 90), (''B'', 31 / 90), (''C'', 14 / 45)] =
   Inr ([(''A'', 37 / 108), (''B'', 467 / 1350), (''C'', 841 / 2700)], 1 / 540)"
  by code_simp

lemma dangling_tenth_pass_3:
  "sweep dangling_example (1 / 10) (3 / 10) (1 / 3)
     [(''A'', 37 / 108), (''B'', 467 / 1350), (''C'', 841 / 2700)] =
   Inr ([(''A'', 27757 / 81000), (''B'', 28009 / 81000), (''C'', 12617 / 40500)], 11 / 81000)"
  by code_simp

lemma dangling_tenth_returns:
  "iterate_pagerank exact dangling_example (1 / 10) =
     Some (Inr [(''A'', 27757 / 81000), (''B'', 28009 / 81000), (''C'', 12617 / 40500)])"
proof -
  have ne: "dangling_example \<noteq> []" by (simp add: dangling_example_def)
  have s0: "after_sweeps dangling_example (1 / 10) 0 =
              Inr ([(''A'', 1 / 3), (''B'', 1 / 3), (''C'', 1 / 3)], 1 / 3)"
    by (simp add: dangling_example_def)
  have par: "(1 - 1 / 10) / real (length dangling_example) = 3 / 10"
            "1 / real (length dangling_example) = 1 / 3"
    by (simp_all add: dangling_example_def)
  have "iterate_pagerank exact dangling_example (1 / 10) =
          iterate_loop exact dangling_example (1 / 10) (3 / 10) (1 / 3)
            [(''A'', 1 / 3), (''B'', 1 / 3), (''C'', 1 / 3)] (1 / 3)"
    using iterate_pagerank_unfold[OF ne s0] by (simp only: par)
  also have "\<dots> = iterate_loop exact dangling_example (1 / 10) (3 / 10) (1 / 3)
            [(''A'', 31 / 90), (''B'', 31 / 90), (''C'', 14 / 45)] (1 / 45)"
    by (rule iterate_loop_step[OF _ dangling_tenth_pass_1]) simp
  also have "\<dots> = iterate_loop exact dangling_example (1 / 10) (3 / 10) (1 / 3)
            [(''A'', 37 / 108), (''B'', 467 / 1350), (''C'', 841 / 2700)] (1 / 540)"
    by (rule iterate_loop_step[OF _ dangling_tenth_pass_2]) simp
  also have "\<dots> = iterate_loop exact dangling_example (1 / 10) (3 / 10) (1 / 3)
            [(''A'', 27757 / 81000), (''B'', 28009 / 81000), (''C'', 12617 / 40500)] (11 / 81000)"
    by (rule iterate_loop_step[OF _ dangling_tenth_pass_3]) simp
  also have "\<dots> = Some (Inr [(''A'', 27757 / 81000), (''B'', 28009 / 81000), (''C'', 12617 / 40500)])"
    by (rule iterate_loop_stop) simp
  finally show ?thesis .
qed

lemma two_cycle_double:
  "iterate_pagerank binary64 two_cycle (Finite 2) =
     Some (Inr [(''A'', Finite (1 / 2)), (''B'', Finite (1 / 2))])"
  by code_simp

lemma two_cycle_double_pass:
  "sweep_fp binary64 two_cycle (Finite 2) (Finite (- (1 / 2))) (Finite (1 / 2))
     [(''A'', Finite (1 / 2)), (''B'', Finite (1 / 2))] =
   Inr ([(''A'', Finite (1 / 2)), (''B'', Finite (1 / 2))], Finite 0)"
  by code_simp

subsection \<open>The errors of the sampling engine\<close>

lemma transition_model_returns:
  assumes "p \<in> set (map fst c)"
  shows "\<exists>model. transition_model c p d = Inr model \<and> map fst model = map fst c"
proof -
  obtain links where l: "map_of c p = Some links"
    using assms by (cases "map_of c p") (auto simp: map_of_eq_None_iff)
  show ?thesis using l
    by (cases "links = {||}")
       (simp_all add: transition_model_def dict_get_def[of c] case_prod_beta
                      map_fst_map_entries Let_def)
qed

lemma sample_loop_error:
  assumes "draws_from_population R"
  shows "p \<in> set (map fst c) \<Longrightarrow> sample_loop R c d i p s pr = Inl e \<Longrightarrow> e = ValueError"
proof (induction i arbitrary: p s pr)
  case 0
  then show ?case by simp
next
  case (Suc i)
  from transition_model_returns[OF Suc.prems(1)] obtain model where
    m: "transition_model c p d = Inr model" "map fst model = map fst c" by blast
  have ne: "map fst c \<noteq> []" using Suc.prems(1) by auto
  show ?case
  proof (cases "random_choices R s (map fst model) (map snd model)")
    case (Inl e')
    then have "e' = ValueError" by (auto simp: random_choices_def split: if_splits)
    then show ?thesis using Suc.prems(2) m(1) Inl by simp
  next
    case (Inr drawn)
    obtain p' s' where d: "drawn = (p', s')" by (cases drawn)
    have "draw_choices R s (map fst c) (map snd model) = (p', s')"
      using Inr d m(2) by (auto simp: random_choices_def split: if_splits)
    then have "p' \<in> set (map fst c)"
      using draw_choices_member[OF assms ne, of s "map snd model"] by simp
    moreover have "sample_loop R c d i p' s' (count_visit pr p') = Inl e"
      using Suc.prems(2) m(1) Inr d by simp
    ultimately show ?thesis by (rule Suc.IH)
  qed
qed

lemma sample_pagerank_error:
  assumes "corpus \<noteq> []" and "draws_from_population R"
    and "sample_pagerank R s corpus d n = Inl e"
  shows "e = ValueError"
proof -
  obtain p s' where dr: "draw_choice R s (map fst corpus) = (p, s')"
    by (cases "draw_choice R s (map fst corpus)")
  have "fst (draw_choice R s (map fst corpus)) \<in> set (map fst corpus)"
    using assms(1,2) by (intro draw_choice_member) simp_all
  then have mem: "p \<in> set (map fst corpus)" using dr by simp
  show ?thesis
  proof (cases "sample_loop R corpus d (nat (n - 1)) p s' []")
    case (Inl e')
    then have "e' = ValueError" using sample_loop_error[OF assms(2) mem] by blast
    then show ?thesis using assms(1,3) dr Inl
      by (simp add: sample_pagerank_def random_choice_def)
  next
    case (Inr visits)
    have "visits = [] \<or> n \<noteq> 0"
    proof (cases "n = 0")
      case True
      then show ?thesis using Inr by simp
    next
      case False
      then show ?thesis by simp
    qed
    then have "\<exists>r. normalize_visits visits n = Inr r"
      by (auto simp: normalize_visits_def)
    then show ?thesis using assms(1,3) dr Inr
      by (auto simp: sample_pagerank_def random_choice_def)
  qed
qed

lemma sample_pagerank_no_samples:
  "corpus \<noteq> [] \<Longrightarrow> n \<le> 1 \<Longrightarrow> sample_pagerank R s corpus d n = Inr []"
  by (cases "draw_choice R s (map fst corpus)")
     (simp add: sample_pagerank_def random_choice_def normalize_visits_def)

section \<open>The claims about the iterative engine and about the configuration\<close>

text \<open>
  Claim C6. \<open>iterate_pagerank\<close> renormalises the rank vector in every pass: the ranks
  that a pass on a non-empty corpus leaves are the new ranks, each divided by their sum
  \<open>norm_factor\<close>, so they sum to exactly 1. Any distribution that the function returns in
  exact arithmetic is the state after the first pass that changes no rank by more than
  \<open>0.001\<close>, and its values sum to 1 (exactly over the reals, so within \<open>1/10^6\<close>).
\<close>

theorem iterate_pagerank_sums_to_one:
  "(\<forall>rp ip page_rank new_rank max_change.
      corpus \<noteq> [] \<longrightarrow> sweep corpus d rp ip page_rank = Inr (new_rank, max_change) \<longrightarrow>
        (\<exists>raw. new_rank_loop corpus d rp ip page_rank corpus = Inr raw \<and>
               sum_list (map snd raw) \<noteq> 0 \<and>
               new_rank = map (\<lambda>(page, rank). (page, rank / sum_list (map snd raw))) raw) \<and>
        sum_list (map snd new_rank) = 1) \<and>
   (\<forall>r. iterate_pagerank exact corpus d = Some (Inr r) \<longrightarrow>
        (\<exists>k max_change. after_sweeps corpus d k = Inr (r, max_change) \<and>
           max_change \<le> 1 / 1000 \<and>
           (\<forall>i < k. \<exists>p m. after_sweeps corpus d i = Inr (p, m) \<and> 1 / 1000 < m)) \<and>
        sum_list (map snd r) = 1 \<and> \<bar>sum_list (map snd r) - 1\<bar> \<le> 1 / 10 ^ 6)"
proof (intro conjI allI impI)
  fix rp ip page_rank new_rank max_change
  assume ne: "corpus \<noteq> []"
    and sw: "sweep corpus d rp ip page_rank = Inr (new_rank, max_change)"
  show "\<exists>raw. new_rank_loop corpus d rp ip page_rank corpus = Inr raw \<and>
               sum_list (map snd raw) \<noteq> 0 \<and>
               new_rank = map (\<lambda>(page, rank). (page, rank / sum_list (map snd raw))) raw"
    using sweep_renormalises[OF sw ne] .
  show "sum_list (map snd new_rank) = 1" using sweep_result[OF sw ne] by simp
next
  fix r assume r: "iterate_pagerank exact corpus d = Some (Inr r)"
  from iterate_pagerank_first_settled[OF r] obtain k mc where
    k: "after_sweeps corpus d k = Inr (r, mc)" "mc \<le> 1 / 1000"
       "\<forall>i < k. \<exists>p m. after_sweeps corpus d i = Inr (p, m) \<and> 1 / 1000 < m" by blast
  then show "\<exists>k max_change. after_sweeps corpus d k = Inr (r, max_change) \<and>
               max_change \<le> 1 / 1000 \<and>
               (\<forall>i < k. \<exists>p m. after_sweeps corpus d i = Inr (p, m) \<and> 1 / 1000 < m)"
    by blast
  show s: "sum_list (map snd r) = 1" using after_sweeps_sum[OF k(1)] .
  show "\<bar>sum_list (map snd r) - 1\<bar> \<le> 1 / 10 ^ 6" using s by simp
qed

theorem iterate_pagerank_sums_to_one_witness:
  "stray_link \<noteq> [] \<and>
   sweep stray_link (85 / 100) (3 / 40) (1 / 2) [(''A'', 1 / 2), (''B'', 1 / 2)] =
     Inr ([(''A'', 40 / 63), (''B'', 23 / 63)], 17 / 126) \<and>
   (\<exists>raw. new_rank_loop stray_link (85 / 100) (3 / 40) (1 / 2)
             [(''A'', 1 / 2), (''B'', 1 / 2)] stray_link = Inr raw \<and>
          sum_list (map snd raw) \<noteq> 0 \<and>
          [(''A'', 40 / 63), (''B'', 23 / 63)] =
            map (\<lambda>(page, rank). (page, rank / sum_list (map snd raw))) raw) \<and>
   sum_list (map snd [(''A'', 40 / 63 :: real), (''B'', 23 / 63)]) = 1 \<and>
   iterate_pagerank exact dangling_example (1 / 10) =
     Some (Inr [(''A'', 27757 / 81000), (''B'', 28009 / 81000), (''C'', 12617 / 40500)]) \<and>
   (\<exists>k max_change. after_sweeps dangling_example (1 / 10) k =
      Inr ([(''A'', 27757 / 81000), (''B'', 28009 / 81000), (''C'', 12617 / 40500)], max_change) \<and>
      max_change \<le> 1 / 1000 \<and>
      (\<forall>i < k. \<exists>p m. after_sweeps dangling_example (1 / 10) i = Inr (p, m) \<and> 1 / 1000 < m)) \<and>
   sum_list (map snd [(''A'', 27757 / 81000 :: real), (''B'', 28009 / 81000),
                      (''C'', 12617 / 40500)]) = 1 \<and>
   \<bar>sum_list (map snd [(''A'', 27757 / 81000 :: real), (''B'', 28009 / 81000),
                       (''C'', 12617 / 40500)]) - 1\<bar> \<le> 1 / 10 ^ 6"
proof -
  have a: "stray_link \<noteq> []" by (simp add: stray_link_def)
  note p = iterate_pagerank_sums_to_one[of stray_link "85 / 100", THEN conjunct1, rule_format, OF a stray_link_pass]
  note r = iterate_pagerank_sums_to_one[of dangling_example "1 / 10", THEN conjunct2, rule_format, OF dangling_tenth_returns]
  show ?thesis using a stray_link_pass dangling_tenth_returns p r by blast
qed




text \<open>
  Claim C9 has the engines report an error when the damping factor is outside \<open>(0,1)\<close>
  or the sample count is not positive, and either return a complete, normalized
  distribution or fail explicitly. As stated it fails: with damping factor 2 and sample
  count 0 \<open>sample_pagerank\<close> returns a dict; with damping factor 2 \<open>iterate_pagerank\<close>
  returns a distribution on a one-page corpus, and on the corpus \<open>{A: {B}, B: {}}\<close> it
  neither returns nor fails.
\<close>

theorem invalid_configuration_accepted:
  "sample_pagerank round_robin (0::nat) two_cycle 2 0 = Inr [] \<and>
   iterate_pagerank binary64 [(''A'', {||})] (Finite 2) = Some (Inr [(''A'', Finite 1)]) \<and>
   iterate_pagerank binary64 sink_pair (Finite 2) = None"
proof -
  have "sample_pagerank round_robin (0::nat) two_cycle 2 0 = Inr []" by code_simp
  then show ?thesis using single_page_double sink_pair_never_returns by blast
qed

text \<open>
  Claim C9, amended. Neither engine checks its configuration. For every damping factor
  and every sample count, \<open>sample_pagerank\<close> on a non-empty corpus returns a dict or raises
  the ValueError of \<open>random.choices\<close>, and for a sample count \<open>n \<le> 0\<close> it returns a dict.
  In any arithmetic and for every damping factor, a pass of \<open>iterate_pagerank\<close> on ranks
  that have the keys of the corpus raises ZeroDivisionError or leaves ranks with the keys
  of the corpus, and \<open>iterate_pagerank\<close> never returns, or raises ZeroDivisionError, or
  returns a dict with the keys of the corpus.
\<close>

theorem engines_without_validation:
  "(corpus \<noteq> [] \<and> draws_from_population R \<longrightarrow>
      (\<exists>r. sample_pagerank R s corpus d n = Inr r) \<or>
      sample_pagerank R s corpus d n = Inl ValueError) \<and>
   (corpus \<noteq> [] \<and> n \<le> 0 \<longrightarrow> (\<exists>r. sample_pagerank R s corpus d n = Inr r)) \<and>
   (map fst page_rank = map fst corpus \<longrightarrow>
      (case sweep_fp ar corpus damping_factor random_prob init_prob page_rank of
         Inl e \<Rightarrow> e = ZeroDivisionError
       | Inr (new_rank, max_change) \<Rightarrow> map fst new_rank = map fst corpus)) \<and>
   (case iterate_pagerank ar corpus damping_factor of
      None \<Rightarrow> True
    | Some (Inl e) \<Rightarrow> e = ZeroDivisionError
    | Some (Inr r) \<Rightarrow> map fst r = map fst corpus)"
proof (intro conjI impI)
  assume "corpus \<noteq> [] \<and> draws_from_population R"
  then show "(\<exists>r. sample_pagerank R s corpus d n = Inr r) \<or>
             sample_pagerank R s corpus d n = Inl ValueError"
    using sample_pagerank_error[of corpus R s d n]
    by (cases "sample_pagerank R s corpus d n") auto
next
  assume "corpus \<noteq> [] \<and> n \<le> 0"
  then show "\<exists>r. sample_pagerank R s corpus d n = Inr r"
    using sample_pagerank_no_samples[of corpus n R s d] by simp
next
  assume "map fst page_rank = map fst corpus"
  then show "case sweep_fp ar corpus damping_factor random_prob init_prob page_rank of
               Inl e \<Rightarrow> e = ZeroDivisionError
             | Inr (new_rank, max_change) \<Rightarrow> map fst new_rank = map fst corpus"
    by (rule sweep_fp_outcome)
next
  show "case iterate_pagerank ar corpus damping_factor of
          None \<Rightarrow> True
        | Some (Inl e) \<Rightarrow> e = ZeroDivisionError
        | Some (Inr r) \<Rightarrow> map fst r = map fst corpus"
  proof (cases "iterate_pagerank ar corpus damping_factor")
    case None
    then show ?thesis by simp
  next
    case (Some res)
    then show ?thesis using iterate_pagerank_outcome[OF Some] by (cases res) simp_all
  qed
qed

theorem engines_without_validation_witness:
  "two_cycle \<noteq> [] \<and> draws_from_population (round_robin :: (nat, string) random_source) \<and>
   (0::int) \<le> 0 \<and>
   map fst [(''A'', Finite (1 / 2)), (''B'', Finite (1 / 2))] = map fst two_cycle \<and>
   ((\<exists>r. sample_pagerank round_robin (0::nat) two_cycle 2 0 = Inr r) \<or>
    sample_pagerank round_robin (0::nat) two_cycle 2 0 = Inl ValueError) \<and>
   (\<exists>r. sample_pagerank round_robin (0::nat) two_cycle 2 0 = Inr r) \<and>
   (case sweep_fp binary64 two_cycle (Finite 2) (Finite (- (1 / 2))) (Finite (1 / 2))
           [(''A'', Finite (1 / 2)), (''B'', Finite (1 / 2))] of
      Inl e \<Rightarrow> e = ZeroDivisionError
    | Inr (new_rank, max_change) \<Rightarrow> map fst new_rank = map fst two_cycle) \<and>
   (case iterate_pagerank binary64 two_cycle (Finite 2) of
      None \<Rightarrow> True
    | Some (Inl e) \<Rightarrow> e = ZeroDivisionError
    | Some (Inr r) \<Rightarrow> map fst r = map fst two_cycle) \<and>
   sweep_fp binary64 two_cycle (Finite 2) (Finite (- (1 / 2))) (Finite (1 / 2))
       [(''A'', Finite (1 / 2)), (''B'', Finite (1 / 2))] =
     Inr ([(''A'', Finite (1 / 2)), (''B'', Finite (1 / 2))], Finite 0) \<and>
   iterate_pagerank binary64 two_cycle (Finite 2) =
     Some (Inr [(''A'', Finite (1 / 2)), (''B'', Finite (1 / 2))])"
proof -
  have a: "two_cycle \<noteq> []" by (simp add: two_cycle_def)
  have b: "draws_from_population (round_robin :: (nat, string) random_source)"
    by (rule round_robin_draws)
  have c: "(0::int) \<le> 0" by simp
  have d: "map fst [(''A'', Finite (1 / 2)), (''B'', Finite (1 / 2))] = map fst two_cycle"
    by (simp add: two_cycle_def)
  note t = engines_without_validation[of two_cycle round_robin "0::nat" 2 0
               "[(''A'', Finite (1 / 2)), (''B'', Finite (1 / 2))]" binary64 "Finite 2"
               "Finite (- (1 / 2))" "Finite (1 / 2)"]
  show ?thesis using a b c d t two_cycle_double_pass two_cycle_double by blast
qed

end
